theory Spec2Isabelle
  imports Main "HOL-Library.Multiset"
begin

section \<open>Rectangle\<close>

text \<open>
  \<^verbatim>\<open>function Rectangle(width, height) {
    return { width, height, getArea() { return this.width * this.height; } };
  }\<close>
  The object literal is a record of its two data fields; the method \<open>getArea\<close> is a
  function of the receiver, so it reads the fields the record has when it is called. The
  type of numbers is a parameter: the method applies the language's multiplication to the
  two fields, whatever that multiplication is.
\<close>

record 'n rectangle =
  width :: 'n
  height :: 'n

definition Rectangle :: "'n \<Rightarrow> 'n \<Rightarrow> 'n rectangle" where
  "Rectangle w h = \<lparr>width = w, height = h\<rparr>"

definition getArea :: "('n::times) rectangle \<Rightarrow> 'n" where
  "getArea this = width this * height this"


section \<open>CSS selector builder: one builder object\<close>

text \<open>
  A builder keeps what it has accumulated in own data properties named \<open>_element\<close>,
  \<open>_id\<close>, \<open>_class\<close>, \<open>_attr\<close>, \<open>_pseudoClass\<close> and \<open>_pseudoElement\<close>, each absent
  until the first accepted call of its setter. The object is modelled by the map from
  property names to the text stored there; \<open>None\<close> is an absent property
  (\<open>undefined\<close> when read). Tokens are strings.
\<close>

type_synonym builder = "string \<rightharpoonup> string"

text \<open>The two \<open>Error\<close> objects of the source: \<open>myError\<close> (a category that may occur once
  occurs again) and \<open>myError2\<close> (selector parts in an invalid order).\<close>

datatype error = myError | myError2

definition hasOwnProperty :: "builder \<Rightarrow> string \<Rightarrow> bool" where
  "hasOwnProperty obj el = (obj el \<noteq> None)"

text \<open>\<^verbatim>\<open>if (props.some((el) => obj.hasOwnProperty(el))) throw myError2;\<close>\<close>

definition checkProps :: "builder \<Rightarrow> string list \<Rightarrow> error + unit" where
  "checkProps obj props =
     (if list_ex (\<lambda>el. hasOwnProperty obj el) props then Inl myError2 else Inr ())"

text \<open>
  A method of \<open>methodsMap\<close> takes the token and the receiver and gives back how it
  completed (\<open>Inl\<close> the error thrown, \<open>Inr ()\<close> a normal return) together with the receiver
  as the method leaves it. A \<open>throw\<close> leaves the receiver as it is at that point.
\<close>

type_synonym setter = "string \<Rightarrow> builder \<Rightarrow> (error + unit) \<times> builder"

definition methodsMap_element :: setter where
  "methodsMap_element val this =
     (if hasOwnProperty this ''_element'' then (Inl myError, this)
      else case checkProps this [''_id'', ''_class'', ''_attr'', ''_pseudoClass'', ''_pseudoElement''] of
             Inl e \<Rightarrow> (Inl e, this)
           | Inr _ \<Rightarrow> (Inr (), this(''_element'' \<mapsto> val)))"

definition methodsMap_id :: setter where
  "methodsMap_id val this =
     (if hasOwnProperty this ''_id'' then (Inl myError, this)
      else case checkProps this [''_class'', ''_attr'', ''_pseudoClass'', ''_pseudoElement''] of
             Inl e \<Rightarrow> (Inl e, this)
           | Inr _ \<Rightarrow> (Inr (), this(''_id'' \<mapsto> ''#'' @ val)))"

text \<open>\<^verbatim>\<open>this._attr = this._attr ? `${this._attr}[${value}]` : `[${value}]`;\<close>
  The condition is the truthiness of the property read: absent and the empty string are
  falsy.\<close>

definition methodsMap_attr :: setter where
  "methodsMap_attr val this =
     (case checkProps this [''_pseudoClass'', ''_pseudo-element''] of
        Inl e \<Rightarrow> (Inl e, this)
      | Inr _ \<Rightarrow> (Inr (), this(''_attr'' \<mapsto>
          (case this ''_attr'' of
             None \<Rightarrow> ''['' @ val @ '']''
           | Some s \<Rightarrow> if s \<noteq> [] then s @ ''['' @ val @ '']'' else ''['' @ val @ '']''))))"

definition methodsMap_class :: setter where
  "methodsMap_class val this =
     (case checkProps this [''_attr'', ''_pseudoClass'', ''_pseudoElement''] of
        Inl e \<Rightarrow> (Inl e, this)
      | Inr _ \<Rightarrow> (Inr (), this(''_class'' \<mapsto>
          (case this ''_class'' of
             None \<Rightarrow> ''.'' @ val
           | Some s \<Rightarrow> if s \<noteq> [] then s @ ''.'' @ val else ''.'' @ val))))"

definition methodsMap_pseudoClass :: setter where
  "methodsMap_pseudoClass val this =
     (case checkProps this [''_pseudoElement''] of
        Inl e \<Rightarrow> (Inl e, this)
      | Inr _ \<Rightarrow> (Inr (), this(''_pseudoClass'' \<mapsto>
          (case this ''_pseudoClass'' of
             None \<Rightarrow> '':'' @ val
           | Some s \<Rightarrow> if s \<noteq> [] then s @ '':'' @ val else '':'' @ val))))"

definition methodsMap_pseudoElement :: setter where
  "methodsMap_pseudoElement val this =
     (if hasOwnProperty this ''_pseudoElement'' then (Inl myError, this)
      else (Inr (), this(''_pseudoElement'' \<mapsto> ''::'' @ val)))"

text \<open>The keys of \<open>methodsMap\<close>, in the order the object literal lists them, and the
  lookup \<open>methodsMap[methodKey]\<close>.\<close>

datatype methodKey = K_element | K_id | K_attr | K_class | K_pseudoClass | K_pseudoElement

fun methodsMap :: "methodKey \<Rightarrow> setter" where
  "methodsMap K_element = methodsMap_element"
| "methodsMap K_id = methodsMap_id"
| "methodsMap K_attr = methodsMap_attr"
| "methodsMap K_class = methodsMap_class"
| "methodsMap K_pseudoClass = methodsMap_pseudoClass"
| "methodsMap K_pseudoElement = methodsMap_pseudoElement"

text \<open>\<open>x || ''\<close> for a property read \<open>x\<close>.\<close>

fun or_empty :: "string option \<Rightarrow> string" where
  "or_empty None = ''''"
| "or_empty (Some s) = (if s \<noteq> [] then s else '''')"

definition stringify :: "builder \<Rightarrow> string" where
  "stringify this =
     or_empty (this ''_element'') @ or_empty (this ''_id'') @ or_empty (this ''_class'')
       @ or_empty (this ''_attr'') @ or_empty (this ''_pseudoClass'')
       @ or_empty (this ''_pseudoElement'')"

text \<open>The constructor installs the six chainable methods and no data property.\<close>

definition new_builder :: builder where
  "new_builder = Map.empty"

text \<open>
  \<^verbatim>\<open>this[methodKey] = (value) => { methodsMap[methodKey].call(this, value); return this; };\<close>
  Each instance method returns the receiver, so a chain \<open>b.k1(v1).k2(v2)...\<close> runs the
  calls in turn on the same object; an error thrown by one of them ends the chain.
\<close>

fun chain :: "(methodKey \<times> string) list \<Rightarrow> builder \<Rightarrow> (error + unit) \<times> builder" where
  "chain [] this = (Inr (), this)"
| "chain ((k, val) # cs) this =
     (case methodsMap k val this of
        (Inl e, this') \<Rightarrow> (Inl e, this')
      | (Inr _, this') \<Rightarrow> chain cs this')"


section \<open>Builders as objects, and \<open>combine\<close>\<close>

text \<open>
  Builders are mutable objects with an identity: the instance methods change the receiver
  in place and return it, and the closure made by \<open>combine\<close> keeps references to its
  two arguments. The heap holds the builders allocated so far, each at its reference.
\<close>

type_synonym ref = nat

record heap =
  cells :: "ref \<Rightarrow> builder"
  next_ref :: ref

definition empty_heap :: heap where
  "empty_heap = \<lparr>cells = (\<lambda>_. Map.empty), next_ref = 0\<rparr>"

text \<open>What has a \<open>stringify()\<close> method: a builder, or the object returned by
  \<open>combine\<close>, which closes over \<open>selector1\<close>, \<open>combinator\<close> and \<open>selector2\<close>.\<close>

datatype renderable = Builder ref | Composite renderable string renderable

text \<open>\<open>new cssSelectorBuilder()\<close>\<close>

definition new_cssSelectorBuilder :: "heap \<Rightarrow> ref \<times> heap" where
  "new_cssSelectorBuilder h =
     (next_ref h, h\<lparr>cells := (cells h)(next_ref h := new_builder), next_ref := Suc (next_ref h)\<rparr>)"

text \<open>\<^verbatim>\<open>this[methodKey] = (value) => { methodsMap[methodKey].call(this, value); return this; };\<close>\<close>

definition instance_method :: "methodKey \<Rightarrow> ref \<Rightarrow> string \<Rightarrow> heap \<Rightarrow> (error + ref) \<times> heap" where
  "instance_method k this val h =
     (case methodsMap k val (cells h this) of
        (Inl e, b) \<Rightarrow> (Inl e, h\<lparr>cells := (cells h)(this := b)\<rparr>)
      | (Inr _, b) \<Rightarrow> (Inr this, h\<lparr>cells := (cells h)(this := b)\<rparr>))"

text \<open>\<^verbatim>\<open>cssSelectorBuilder[methodKey] = (value) => new cssSelectorBuilder()[methodKey](value);\<close>\<close>

definition static_method :: "methodKey \<Rightarrow> string \<Rightarrow> heap \<Rightarrow> (error + ref) \<times> heap" where
  "static_method k val h =
     (case new_cssSelectorBuilder h of (this, h') \<Rightarrow> instance_method k this val h')"

text \<open>\<open>r.stringify()\<close> in heap \<open>h\<close>. The composite's closure calls the \<open>stringify()\<close> of
  its two children when it is itself called:
  \<^verbatim>\<open>stringify: () => `${selector1.stringify()} ${combinator} ${selector2.stringify()}`\<close>\<close>

fun stringify_at :: "heap \<Rightarrow> renderable \<Rightarrow> string" where
  "stringify_at h (Builder this) = stringify (cells h this)"
| "stringify_at h (Composite selector1 combinator selector2) =
     stringify_at h selector1 @ '' '' @ combinator @ '' '' @ stringify_at h selector2"

text \<open>\<open>cssSelectorBuilder.combine\<close> returns a new object literal; its body assigns
  nothing.\<close>

definition combine :: "renderable \<Rightarrow> string \<Rightarrow> renderable \<Rightarrow> heap \<Rightarrow> renderable \<times> heap" where
  "combine selector1 combinator selector2 h = (Composite selector1 combinator selector2, h)"

text \<open>Running one call after another; an error thrown ends the run.\<close>

definition seq ::
  "(heap \<Rightarrow> (error + 'a) \<times> heap) \<Rightarrow> ('a \<Rightarrow> heap \<Rightarrow> (error + 'b) \<times> heap)
     \<Rightarrow> heap \<Rightarrow> (error + 'b) \<times> heap" where
  "seq m f h = (case m h of (Inl e, h') \<Rightarrow> (Inl e, h') | (Inr x, h') \<Rightarrow> f x h')"

text \<open>\<^verbatim>\<open>combine(element('div').id('main'), '>', element('span')).stringify()\<close>\<close>

definition combine_example :: "heap \<Rightarrow> (error + string) \<times> heap" where
  "combine_example =
     seq (static_method K_element ''div'') (\<lambda>b.
     seq (instance_method K_id b ''main'') (\<lambda>left.
     seq (static_method K_element ''span'') (\<lambda>right h.
       case combine (Builder left) ''>'' (Builder right) h of
         (node, h') \<Rightarrow> (Inr (stringify_at h' node), h'))))"


section \<open>The selector of the specification\<close>

text \<open>
  The specification describes a selector by six attributes: \<open>element\<close>, \<open>id\<close> and
  \<open>pseudoElement\<close> absent or one token, \<open>classes\<close>, \<open>attributes\<close> and \<open>pseudoClasses\<close>
  sequences of tokens in insertion order. The definitions of this section follow the
  specification; they are what the code is compared with.
\<close>

record Selector =
  sel_element :: "string option"
  sel_id :: "string option"
  sel_classes :: "string list"
  sel_attributes :: "string list"
  sel_pseudoClasses :: "string list"
  sel_pseudoElement :: "string option"

definition spec_empty :: Selector where
  "spec_empty = \<lparr>sel_element = None, sel_id = None, sel_classes = [], sel_attributes = [],
     sel_pseudoClasses = [], sel_pseudoElement = None\<rparr>"

text \<open>What a setter call puts into the selector.\<close>

fun spec_record :: "Selector \<Rightarrow> methodKey \<times> string \<Rightarrow> Selector" where
  "spec_record s (K_element, t) = s\<lparr>sel_element := Some t\<rparr>"
| "spec_record s (K_id, t) = s\<lparr>sel_id := Some t\<rparr>"
| "spec_record s (K_class, t) = s\<lparr>sel_classes := sel_classes s @ [t]\<rparr>"
| "spec_record s (K_attr, t) = s\<lparr>sel_attributes := sel_attributes s @ [t]\<rparr>"
| "spec_record s (K_pseudoClass, t) = s\<lparr>sel_pseudoClasses := sel_pseudoClasses s @ [t]\<rparr>"
| "spec_record s (K_pseudoElement, t) = s\<lparr>sel_pseudoElement := Some t\<rparr>"

definition spec_selector :: "(methodKey \<times> string) list \<Rightarrow> Selector" where
  "spec_selector cs = foldl spec_record spec_empty cs"

text \<open>\<open>element + id + classes + attributes + pseudoClasses + pseudoElement\<close>, each present
  piece with its prefix, each absent piece empty.\<close>

definition spec_stringify :: "Selector \<Rightarrow> string" where
  "spec_stringify s =
     (case sel_element s of None \<Rightarrow> '''' | Some t \<Rightarrow> t)
     @ (case sel_id s of None \<Rightarrow> '''' | Some t \<Rightarrow> ''#'' @ t)
     @ concat (map (\<lambda>t. ''.'' @ t) (sel_classes s))
     @ concat (map (\<lambda>t. ''['' @ t @ '']'') (sel_attributes s))
     @ concat (map (\<lambda>t. '':'' @ t) (sel_pseudoClasses s))
     @ (case sel_pseudoElement s of None \<Rightarrow> '''' | Some t \<Rightarrow> ''::'' @ t)"

text \<open>The fragment one call contributes to the text, and the rank of its category in the
  order element, id, class, attribute, pseudo-class, pseudo-element.\<close>

fun spec_fragment :: "methodKey \<times> string \<Rightarrow> string" where
  "spec_fragment (K_element, t) = t"
| "spec_fragment (K_id, t) = ''#'' @ t"
| "spec_fragment (K_class, t) = ''.'' @ t"
| "spec_fragment (K_attr, t) = ''['' @ t @ '']''"
| "spec_fragment (K_pseudoClass, t) = '':'' @ t"
| "spec_fragment (K_pseudoElement, t) = ''::'' @ t"

fun spec_rank :: "methodKey \<times> string \<Rightarrow> nat" where
  "spec_rank (K_element, t) = 0"
| "spec_rank (K_id, t) = 1"
| "spec_rank (K_class, t) = 2"
| "spec_rank (K_attr, t) = 3"
| "spec_rank (K_pseudoClass, t) = 4"
| "spec_rank (K_pseudoElement, t) = 5"

text \<open>The calls of one category among the calls made, in the order they were made.\<close>

definition calls_of :: "methodKey \<Rightarrow> (methodKey \<times> string) list \<Rightarrow> (methodKey \<times> string) list" where
  "calls_of k cs = filter (\<lambda>c. fst c = k) cs"


section \<open>Relating a builder to the calls it accepted\<close>

text \<open>The property in which the setter of a category stores its text.\<close>

fun field :: "methodKey \<Rightarrow> string" where
  "field K_element = ''_element''"
| "field K_id = ''_id''"
| "field K_class = ''_class''"
| "field K_attr = ''_attr''"
| "field K_pseudoClass = ''_pseudoClass''"
| "field K_pseudoElement = ''_pseudoElement''"

definition repeated :: "(string \<Rightarrow> string) \<Rightarrow> string list \<Rightarrow> string option" where
  "repeated f ts = (if ts = [] then None else Some (concat (map f ts)))"

text \<open>The builder \<open>b\<close> stores the selector \<open>s\<close>.\<close>

definition refines :: "builder \<Rightarrow> Selector \<Rightarrow> bool" where
  "refines b s \<longleftrightarrow>
     b ''_element'' = sel_element s \<and>
     b ''_id'' = map_option (\<lambda>t. ''#'' @ t) (sel_id s) \<and>
     b ''_class'' = repeated (\<lambda>t. ''.'' @ t) (sel_classes s) \<and>
     b ''_attr'' = repeated (\<lambda>t. ''['' @ t @ '']'') (sel_attributes s) \<and>
     b ''_pseudoClass'' = repeated (\<lambda>t. '':'' @ t) (sel_pseudoClasses s) \<and>
     b ''_pseudoElement'' = map_option (\<lambda>t. ''::'' @ t) (sel_pseudoElement s)"

text \<open>The builder \<open>b\<close> stores, under each category's property, the fragments of the calls
  \<open>cs\<close> of that category.\<close>

definition records :: "builder \<Rightarrow> (methodKey \<times> string) list \<Rightarrow> bool" where
  "records b cs \<longleftrightarrow>
     (\<forall>k. b (field k) = (if calls_of k cs = [] then None
                          else Some (concat (map spec_fragment (calls_of k cs)))))"


section \<open>Errors of the setters\<close>

text \<open>The definitions a concrete run of the setters unfolds.\<close>

lemmas setter_defs =
  methodsMap_element_def methodsMap_id_def methodsMap_attr_def methodsMap_class_def
  methodsMap_pseudoClass_def methodsMap_pseudoElement_def checkProps_def hasOwnProperty_def
  new_builder_def

lemma duplicate_element:
  "hasOwnProperty this ''_element'' \<Longrightarrow> methodsMap K_element val this = (Inl myError, this)"
  by (simp add: methodsMap_element_def)

lemma duplicate_id:
  "hasOwnProperty this ''_id'' \<Longrightarrow> methodsMap K_id val this = (Inl myError, this)"
  by (simp add: methodsMap_id_def)

lemma duplicate_pseudoElement:
  "hasOwnProperty this ''_pseudoElement'' \<Longrightarrow>
     methodsMap K_pseudoElement val this = (Inl myError, this)"
  by (simp add: methodsMap_pseudoElement_def)

lemma element_order:
  assumes "\<not> hasOwnProperty this ''_element''"
    and "hasOwnProperty this ''_id'' \<or> hasOwnProperty this ''_class''
         \<or> hasOwnProperty this ''_attr'' \<or> hasOwnProperty this ''_pseudoClass''
         \<or> hasOwnProperty this ''_pseudoElement''"
  shows "methodsMap K_element val this = (Inl myError2, this)"
  using assms by (auto simp: methodsMap_element_def checkProps_def)

lemma attr_after_pseudoClass:
  "hasOwnProperty this ''_pseudoClass'' \<Longrightarrow> methodsMap K_attr val this = (Inl myError2, this)"
  by (simp add: methodsMap_attr_def checkProps_def)

lemma methodsMap_throw_keeps:
  "fst (methodsMap k val this) = Inl e \<Longrightarrow> snd (methodsMap k val this) = this"
  by (cases k)
     (auto simp: methodsMap_element_def methodsMap_id_def methodsMap_attr_def
        methodsMap_class_def methodsMap_pseudoClass_def methodsMap_pseudoElement_def
        split: if_splits sum.splits)

lemma instance_method_throw_keeps:
  assumes "fst (instance_method k this val h) = Inl e"
  shows "snd (instance_method k this val h) = h"
proof -
  obtain r b where m: "methodsMap k val (cells h this) = (r, b)"
    by (cases "methodsMap k val (cells h this)")
  with assms obtain e' where r: "r = Inl e'"
    by (cases r) (auto simp: instance_method_def)
  from m r have "fst (methodsMap k val (cells h this)) = Inl e'" by simp
  then have "snd (methodsMap k val (cells h this)) = cells h this"
    by (rule methodsMap_throw_keeps)
  with m have "b = cells h this" by simp
  with m r show ?thesis by (simp add: instance_method_def)
qed

text \<open>An instance method acts on its receiver's cell as the method of \<open>methodsMap\<close> does,
  and on no other builder.\<close>

lemma instance_method_receiver:
  "cells (snd (instance_method k this val h)) this = snd (methodsMap k val (cells h this))"
  by (cases "methodsMap k val (cells h this)") (auto simp: instance_method_def split: sum.splits)

lemma instance_method_others:
  "r \<noteq> this \<Longrightarrow> cells (snd (instance_method k this val h)) r = cells h r"
  by (cases "methodsMap k val (cells h this)") (auto simp: instance_method_def split: sum.splits)


section \<open>Accepted chains of calls\<close>

text \<open>Each accepted call keeps the two relations between the builder and the calls made
  so far; a new builder stands in both to no call at all.\<close>

lemma refines_new: "refines new_builder spec_empty"
  by (simp add: refines_def new_builder_def spec_empty_def repeated_def)

lemma refines_step:
  assumes "refines b s" and "methodsMap k val b = (Inr u, b')"
  shows "refines b' (spec_record s (k, val))"
  using assms
  by (cases k)
     (auto simp: refines_def methodsMap_element_def methodsMap_id_def methodsMap_attr_def
        methodsMap_class_def methodsMap_pseudoClass_def methodsMap_pseudoElement_def
        hasOwnProperty_def repeated_def
        split: if_splits sum.splits option.splits)

lemma refines_chain:
  "refines b s \<Longrightarrow> chain cs b = (Inr u, b') \<Longrightarrow> refines b' (foldl spec_record s cs)"
proof (induction cs arbitrary: b s)
  case Nil
  then show ?case by simp
next
  case (Cons c cs)
  obtain k val where c: "c = (k, val)" by (cases c)
  obtain r b1 where m: "methodsMap k val b = (r, b1)" by (cases "methodsMap k val b")
  with Cons.prems c obtain u1 where r: "r = Inr u1" by (cases r) auto
  from Cons.prems(1) m r have "refines b1 (spec_record s (k, val))" by (auto intro: refines_step)
  moreover from Cons.prems(2) c m r have "chain cs b1 = (Inr u, b')" by simp
  ultimately show ?case using Cons.IH c by simp
qed

lemma refines_stringify: "refines b s \<Longrightarrow> stringify b = spec_stringify s"
  by (auto simp: refines_def stringify_def spec_stringify_def repeated_def split: option.splits)

lemma records_new: "records new_builder []"
  by (simp add: records_def new_builder_def calls_of_def)

lemma records_step:
  assumes "records b cs" and "methodsMap k val b = (Inr u, b')"
  shows "records b' (cs @ [(k, val)])"
  unfolding records_def
proof
  fix j
  from assms(1) have bj: "\<And>i. b (field i) = (if calls_of i cs = [] then None
        else Some (concat (map spec_fragment (calls_of i cs))))"
    by (simp add: records_def)
  show "b' (field j) = (if calls_of j (cs @ [(k, val)]) = [] then None
        else Some (concat (map spec_fragment (calls_of j (cs @ [(k, val)])))))"
  proof (cases k)
    case K_element
    with assms(2) bj[of K_element] bj[of j] show ?thesis
      by (cases j) (auto simp: methodsMap_element_def hasOwnProperty_def calls_of_def
          split: if_splits sum.splits)
  next
    case K_id
    with assms(2) bj[of K_id] bj[of j] show ?thesis
      by (cases j) (auto simp: methodsMap_id_def hasOwnProperty_def calls_of_def
          split: if_splits sum.splits)
  next
    case K_attr
    with assms(2) bj[of K_attr] bj[of j] show ?thesis
      by (cases j) (auto simp: methodsMap_attr_def hasOwnProperty_def calls_of_def
          split: if_splits sum.splits)
  next
    case K_class
    with assms(2) bj[of K_class] bj[of j] show ?thesis
      by (cases j) (auto simp: methodsMap_class_def hasOwnProperty_def calls_of_def
          split: if_splits sum.splits)
  next
    case K_pseudoClass
    with assms(2) bj[of K_pseudoClass] bj[of j] show ?thesis
      by (cases j) (auto simp: methodsMap_pseudoClass_def hasOwnProperty_def calls_of_def
          split: if_splits sum.splits)
  next
    case K_pseudoElement
    with assms(2) bj[of K_pseudoElement] bj[of j] show ?thesis
      by (cases j) (auto simp: methodsMap_pseudoElement_def hasOwnProperty_def calls_of_def
          split: if_splits sum.splits)
  qed
qed

lemma records_chain:
  "records b hist \<Longrightarrow> chain cs b = (Inr u, b') \<Longrightarrow> records b' (hist @ cs)"
proof (induction cs arbitrary: b hist)
  case Nil
  then show ?case by simp
next
  case (Cons c cs)
  obtain k val where c: "c = (k, val)" by (cases c)
  obtain r b1 where m: "methodsMap k val b = (r, b1)" by (cases "methodsMap k val b")
  with Cons.prems c obtain u1 where r: "r = Inr u1" by (cases r) auto
  from Cons.prems(1) m r have "records b1 (hist @ [(k, val)])" by (auto intro: records_step)
  moreover from Cons.prems(2) c m r have "chain cs b1 = (Inr u, b')" by simp
  ultimately have "records b' ((hist @ [(k, val)]) @ cs)" by (rule Cons.IH)
  with c show ?case by simp
qed

lemma records_stringify:
  assumes "records b cs"
  shows "stringify b =
     concat (map spec_fragment
       (calls_of K_element cs @ calls_of K_id cs @ calls_of K_class cs @ calls_of K_attr cs
          @ calls_of K_pseudoClass cs @ calls_of K_pseudoElement cs))"
proof -
  from assms have bj: "\<And>i. b (field i) = (if calls_of i cs = [] then None
        else Some (concat (map spec_fragment (calls_of i cs))))"
    by (simp add: records_def)
  show ?thesis
    using bj[of K_element] bj[of K_id] bj[of K_class] bj[of K_attr] bj[of K_pseudoClass]
      bj[of K_pseudoElement]
    by (simp add: stringify_def)
qed

lemma sorted_const: "sorted (map spec_rank (calls_of k cs))"
proof -
  have "\<And>n xs. \<forall>x\<in>set xs. spec_rank x = n \<Longrightarrow> sorted (map spec_rank xs)"
  proof -
    fix n and xs :: "(methodKey \<times> string) list"
    show "\<forall>x\<in>set xs. spec_rank x = n \<Longrightarrow> sorted (map spec_rank xs)"
      by (induction xs) auto
  qed
  moreover have "\<forall>x\<in>set (calls_of k cs). spec_rank x = spec_rank (k, [])"
  proof
    fix x assume "x \<in> set (calls_of k cs)"
    then have "fst x = k" by (simp add: calls_of_def)
    then show "spec_rank x = spec_rank (k, [])" by (cases x; cases k) simp_all
  qed
  ultimately show ?thesis by blast
qed

lemma sort_key_rank_groups:
  "sort_key spec_rank cs =
     calls_of K_element cs @ calls_of K_id cs @ calls_of K_class cs @ calls_of K_attr cs
       @ calls_of K_pseudoClass cs @ calls_of K_pseudoElement cs"
proof (rule properties_for_sort_key)
  show "mset (calls_of K_element cs @ calls_of K_id cs @ calls_of K_class cs @ calls_of K_attr cs
       @ calls_of K_pseudoClass cs @ calls_of K_pseudoElement cs) = mset cs"
  proof (induction cs)
    case Nil
    then show ?case by (simp add: calls_of_def)
  next
    case (Cons c cs)
    obtain k t where "c = (k, t)" by (cases c)
    with Cons show ?case
      by (cases k) (simp_all add: calls_of_def)
  qed
next
  fix c :: "methodKey \<times> string"
  obtain k t where c: "c = (k, t)" by (cases c)
  have rank_eq: "\<And>x. (spec_rank (k, t) = spec_rank x) = (fst x = k)"
  proof -
    fix x :: "methodKey \<times> string"
    obtain k' t' where "x = (k', t')" by (cases x)
    then show "(spec_rank (k, t) = spec_rank x) = (fst x = k)"
      by (cases k; cases k') simp_all
  qed
  show "filter (\<lambda>x. spec_rank c = spec_rank x)
          (calls_of K_element cs @ calls_of K_id cs @ calls_of K_class cs @ calls_of K_attr cs
             @ calls_of K_pseudoClass cs @ calls_of K_pseudoElement cs)
        = filter (\<lambda>x. spec_rank c = spec_rank x) cs"
    unfolding c rank_eq
    by (cases k) (simp_all add: calls_of_def)
next
  have r: "\<And>k x. x \<in> set (calls_of k cs) \<Longrightarrow> spec_rank x = spec_rank (k, [])"
  proof -
    fix k and x :: "methodKey \<times> string"
    assume "x \<in> set (calls_of k cs)"
    then have "fst x = k" by (simp add: calls_of_def)
    then show "spec_rank x = spec_rank (k, [])" by (cases x; cases k) simp_all
  qed
  show "sorted (map spec_rank
          (calls_of K_element cs @ calls_of K_id cs @ calls_of K_class cs @ calls_of K_attr cs
             @ calls_of K_pseudoClass cs @ calls_of K_pseudoElement cs))"
    by (auto simp: sorted_append sorted_const dest!: r)
qed


lemma accepted_records:
  assumes "fst (chain cs new_builder) = Inr ()"
  shows "records (snd (chain cs new_builder)) cs"
proof -
  from assms have "chain cs new_builder = (Inr (), snd (chain cs new_builder))"
    by (cases "chain cs new_builder") simp
  with records_new have "records (snd (chain cs new_builder)) ([] @ cs)"
    by (rule records_chain)
  then show ?thesis by simp
qed

lemma accepted_refines:
  assumes "fst (chain cs new_builder) = Inr ()"
  shows "refines (snd (chain cs new_builder)) (spec_selector cs)"
proof -
  from assms have "chain cs new_builder = (Inr (), snd (chain cs new_builder))"
    by (cases "chain cs new_builder") simp
  with refines_new show ?thesis
    unfolding spec_selector_def by (rule refines_chain)
qed

lemma accepted_hasOwnProperty:
  assumes "fst (chain cs new_builder) = Inr ()" and "(k, t) \<in> set cs"
  shows "hasOwnProperty (snd (chain cs new_builder)) (field k)"
proof -
  from assms(2) have "calls_of k cs \<noteq> []"
    by (force simp: calls_of_def filter_empty_conv)
  moreover from assms(1) have "records (snd (chain cs new_builder)) cs"
    by (rule accepted_records)
  ultimately show ?thesis
    by (simp add: records_def hasOwnProperty_def)
qed


lemma attr_accepted_appends:
  assumes "fst (chain cs new_builder) = Inr ()"
    and "methodsMap K_attr val (snd (chain cs new_builder)) = (Inr u, b')"
  shows "b' ''_attr'' = Some (concat (map spec_fragment (calls_of K_attr cs)) @ ''['' @ val @ '']'')"
proof -
  from assms(1) have "records (snd (chain cs new_builder)) cs" by (rule accepted_records)
  then have "records b' (cs @ [(K_attr, val)])" using assms(2) by (rule records_step)
  then have "b' (field K_attr) = (if calls_of K_attr (cs @ [(K_attr, val)]) = [] then None
      else Some (concat (map spec_fragment (calls_of K_attr (cs @ [(K_attr, val)])))))"
    unfolding records_def by (rule spec)
  then show ?thesis by (simp add: calls_of_def)
qed


section \<open>The claims\<close>

text \<open>
  C1. The claim: on every builder in which pseudoClass or pseudoElement is populated,
  \<open>attr(token)\<close> fails with \<open>myError2\<close>, the out-of-order error. The list that
  \<open>attr\<close> hands to \<open>checkProps\<close> names \<open>_pseudo-element\<close>, a property no setter
  writes, where the other setters name \<open>_pseudoElement\<close>. On the builder made by
  \<open>pseudoElement('after')\<close> the property \<open>_pseudoElement\<close> is present, and
  \<open>attr('x')\<close> returns normally and stores \<open>[x]\<close>.
\<close>

theorem attr_after_pseudoElement_accepted:
  "hasOwnProperty (snd (methodsMap K_pseudoElement ''after'' new_builder)) ''_pseudoElement''
   \<and> fst (methodsMap K_attr ''x'' (snd (methodsMap K_pseudoElement ''after'' new_builder)))
       = Inr ()
   \<and> snd (methodsMap K_attr ''x'' (snd (methodsMap K_pseudoElement ''after'' new_builder)))
       ''_attr'' = Some ''[x]''"
  by (simp add: setter_defs)

text \<open>
  C2. For every builder, reached from a new one by a chain of setter calls none of which
  throws, \<open>stringify()\<close> is the text the specification gives for the selector those
  calls describe: element, then \<open>#\<close> and the id, then each class after a \<open>.\<close>, each
  attribute in brackets, each pseudo-class after a \<open>:\<close>, then \<open>::\<close> and the
  pseudo-element, absent pieces empty, nothing between the pieces. In particular
  \<open>element('div').id('main').class('a').class('b').stringify()\<close> is \<open>div#main.a.b\<close>.
\<close>

theorem stringify_refines_spec:
  "(\<forall>cs. fst (chain cs new_builder) = Inr () \<longrightarrow>
      stringify (snd (chain cs new_builder)) = spec_stringify (spec_selector cs))
   \<and> fst (chain [(K_element, ''div''), (K_id, ''main''), (K_class, ''a''), (K_class, ''b'')]
          new_builder) = Inr ()
   \<and> stringify (snd (chain [(K_element, ''div''), (K_id, ''main''), (K_class, ''a''),
          (K_class, ''b'')] new_builder)) = ''div#main.a.b''"
proof (intro conjI allI impI)
  fix cs
  assume "fst (chain cs new_builder) = Inr ()"
  then have "refines (snd (chain cs new_builder)) (spec_selector cs)"
    by (rule accepted_refines)
  then show "stringify (snd (chain cs new_builder)) = spec_stringify (spec_selector cs)"
    by (rule refines_stringify)
next
  show "fst (chain [(K_element, ''div''), (K_id, ''main''), (K_class, ''a''), (K_class, ''b'')]
          new_builder) = Inr ()"
    by (simp add: setter_defs)
next
  show "stringify (snd (chain [(K_element, ''div''), (K_id, ''main''), (K_class, ''a''),
          (K_class, ''b'')] new_builder)) = ''div#main.a.b''"
    by (simp add: setter_defs stringify_def)
qed

theorem stringify_refines_spec_witness:
  "fst (chain [(K_id, ''main''), (K_class, ''container''), (K_class, ''editable'')] new_builder)
     = Inr ()
   \<and> stringify (snd (chain [(K_id, ''main''), (K_class, ''container''), (K_class, ''editable'')]
        new_builder)) = ''#main.container.editable''"
proof -
  have a: "fst (chain [(K_id, ''main''), (K_class, ''container''), (K_class, ''editable'')]
      new_builder) = Inr ()"
    by (simp add: setter_defs)
  have b: "spec_stringify (spec_selector [(K_id, ''main''), (K_class, ''container''),
      (K_class, ''editable'')]) = ''#main.container.editable''"
    by (simp add: spec_stringify_def spec_selector_def spec_empty_def)
  from stringify_refines_spec a
  have "stringify (snd (chain [(K_id, ''main''), (K_class, ''container''),
      (K_class, ''editable'')] new_builder))
    = spec_stringify (spec_selector [(K_id, ''main''), (K_class, ''container''),
      (K_class, ''editable'')])"
    by blast
  with a b show ?thesis by (simp only:)
qed

text \<open>
  C3. On every builder on which element, id or pseudoElement has been set, calling the
  same setter again fails with \<open>myError\<close>, the error of a category occurring twice,
  and leaves the builder as it was: for a builder that has the category's property, and so
  for the builder reached by an accepted chain of calls that holds a call of that setter.
  In particular \<open>id('a')\<close> twice on one builder raises \<open>myError\<close>.
\<close>

theorem duplicate_category_error:
  "(\<forall>this val. hasOwnProperty this ''_element'' \<longrightarrow>
      methodsMap K_element val this = (Inl myError, this))
   \<and> (\<forall>this val. hasOwnProperty this ''_id'' \<longrightarrow>
      methodsMap K_id val this = (Inl myError, this))
   \<and> (\<forall>this val. hasOwnProperty this ''_pseudoElement'' \<longrightarrow>
      methodsMap K_pseudoElement val this = (Inl myError, this))
   \<and> (\<forall>cs k t val.
        (k = K_element \<or> k = K_id \<or> k = K_pseudoElement)
        \<and> fst (chain cs new_builder) = Inr () \<and> (k, t) \<in> set cs \<longrightarrow>
        fst (methodsMap k val (snd (chain cs new_builder))) = Inl myError)
   \<and> fst (chain [(K_id, ''a''), (K_id, ''a'')] new_builder) = Inl myError"
proof (intro conjI allI impI)
  fix cs k t val
  assume a: "(k = K_element \<or> k = K_id \<or> k = K_pseudoElement)
        \<and> fst (chain cs new_builder) = Inr () \<and> (k, t) \<in> set cs"
  then have "hasOwnProperty (snd (chain cs new_builder)) (field k)"
    by (auto intro: accepted_hasOwnProperty)
  with a show "fst (methodsMap k val (snd (chain cs new_builder))) = Inl myError"
    by (auto simp: duplicate_element duplicate_id duplicate_pseudoElement
        simp del: methodsMap.simps)
next
  show "fst (chain [(K_id, ''a''), (K_id, ''a'')] new_builder) = Inl myError"
    by (simp add: setter_defs)
qed (simp_all add: duplicate_element duplicate_id duplicate_pseudoElement del: methodsMap.simps)

theorem duplicate_category_error_witness:
  "hasOwnProperty (snd (chain [(K_element, ''div''), (K_pseudoElement, ''after'')] new_builder))
     ''_pseudoElement''
   \<and> methodsMap K_pseudoElement ''before''
        (snd (chain [(K_element, ''div''), (K_pseudoElement, ''after'')] new_builder))
      = (Inl myError, snd (chain [(K_element, ''div''), (K_pseudoElement, ''after'')] new_builder))"
proof -
  have a: "hasOwnProperty
      (snd (chain [(K_element, ''div''), (K_pseudoElement, ''after'')] new_builder))
      ''_pseudoElement''"
    by (simp add: setter_defs)
  with duplicate_category_error show ?thesis by blast
qed

text \<open>
  C4, as stated, fails. On the builder made by \<open>element('div').id('main')\<close> the id is
  populated, and \<open>element('p')\<close> fails with \<open>myError\<close>, the error of a category
  occurring twice, not with \<open>myError2\<close>: \<open>element\<close> tests its own property before it
  calls \<open>checkProps\<close>.
\<close>

theorem element_after_id_is_duplicate:
  "hasOwnProperty (snd (chain [(K_element, ''div''), (K_id, ''main'')] new_builder)) ''_id''
   \<and> fst (methodsMap K_element ''p''
        (snd (chain [(K_element, ''div''), (K_id, ''main'')] new_builder))) = Inl myError
   \<and> fst (methodsMap K_element ''p''
        (snd (chain [(K_element, ''div''), (K_id, ''main'')] new_builder))) \<noteq> Inl myError2"
  by (simp add: setter_defs)

text \<open>
  C4, amended. On every builder in which element is not yet set and any of id, class,
  attribute, pseudoClass or pseudoElement is populated, \<open>element(token)\<close> fails with
  \<open>myError2\<close>, the out-of-order error, and leaves the builder as it was; on a builder whose
  element is already set it fails with \<open>myError\<close> instead. In particular
  \<open>class('x')\<close> then \<open>element('div')\<close> on one builder raises \<open>myError2\<close>.
\<close>

theorem element_out_of_order:
  "(\<forall>this val.
      \<not> hasOwnProperty this ''_element''
      \<and> (hasOwnProperty this ''_id'' \<or> hasOwnProperty this ''_class''
         \<or> hasOwnProperty this ''_attr'' \<or> hasOwnProperty this ''_pseudoClass''
         \<or> hasOwnProperty this ''_pseudoElement'') \<longrightarrow>
      methodsMap K_element val this = (Inl myError2, this))
   \<and> (\<forall>cs k t val.
        k \<noteq> K_element \<and> fst (chain cs new_builder) = Inr () \<and> (k, t) \<in> set cs
        \<and> (\<forall>t'. (K_element, t') \<notin> set cs) \<longrightarrow>
        fst (methodsMap K_element val (snd (chain cs new_builder))) = Inl myError2)
   \<and> (\<forall>this val. hasOwnProperty this ''_element'' \<longrightarrow>
        methodsMap K_element val this = (Inl myError, this))
   \<and> fst (chain [(K_class, ''x''), (K_element, ''div'')] new_builder) = Inl myError2"
proof (intro conjI allI impI)
  fix this val
  assume "\<not> hasOwnProperty this ''_element''
      \<and> (hasOwnProperty this ''_id'' \<or> hasOwnProperty this ''_class''
         \<or> hasOwnProperty this ''_attr'' \<or> hasOwnProperty this ''_pseudoClass''
         \<or> hasOwnProperty this ''_pseudoElement'')"
  then show "methodsMap K_element val this = (Inl myError2, this)"
    by (intro element_order) simp_all
next
  fix cs k t val
  assume a: "k \<noteq> K_element \<and> fst (chain cs new_builder) = Inr () \<and> (k, t) \<in> set cs
        \<and> (\<forall>t'. (K_element, t') \<notin> set cs)"
  let ?b = "snd (chain cs new_builder)"
  from a have rec: "records ?b cs" by (auto intro: accepted_records)
  from a have "calls_of K_element cs = []"
    by (auto simp: calls_of_def filter_empty_conv)
  moreover from rec have "?b (field K_element) = (if calls_of K_element cs = [] then None
      else Some (concat (map spec_fragment (calls_of K_element cs))))"
    unfolding records_def by (rule spec)
  ultimately have no: "\<not> hasOwnProperty ?b ''_element''"
    by (simp add: hasOwnProperty_def)
  from a have "hasOwnProperty ?b (field k)" by (auto intro: accepted_hasOwnProperty)
  with a have "hasOwnProperty ?b ''_id'' \<or> hasOwnProperty ?b ''_class''
         \<or> hasOwnProperty ?b ''_attr'' \<or> hasOwnProperty ?b ''_pseudoClass''
         \<or> hasOwnProperty ?b ''_pseudoElement''"
    by (cases k) simp_all
  with no have "methodsMap K_element val ?b = (Inl myError2, ?b)"
    by (rule element_order)
  then show "fst (methodsMap K_element val ?b) = Inl myError2" by simp
next
  fix this val
  assume "hasOwnProperty this ''_element''"
  then show "methodsMap K_element val this = (Inl myError, this)"
    by (rule duplicate_element)
next
  show "fst (chain [(K_class, ''x''), (K_element, ''div'')] new_builder) = Inl myError2"
    by (simp add: setter_defs)
qed

theorem element_out_of_order_witness:
  "\<not> hasOwnProperty (snd (chain [(K_id, ''main''), (K_class, ''x'')] new_builder)) ''_element''
   \<and> hasOwnProperty (snd (chain [(K_id, ''main''), (K_class, ''x'')] new_builder)) ''_class''
   \<and> methodsMap K_element ''div'' (snd (chain [(K_id, ''main''), (K_class, ''x'')] new_builder))
      = (Inl myError2, snd (chain [(K_id, ''main''), (K_class, ''x'')] new_builder))"
proof -
  have a: "\<not> hasOwnProperty (snd (chain [(K_id, ''main''), (K_class, ''x'')] new_builder))
      ''_element''"
    by (simp add: setter_defs)
  have b: "hasOwnProperty (snd (chain [(K_id, ''main''), (K_class, ''x'')] new_builder))
      ''_class''"
    by (simp add: setter_defs)
  with a element_out_of_order show ?thesis by blast
qed

text \<open>
  C5. \<open>combine(left, token, right)\<close> leaves the heap, and so every builder in it, as it
  was, and returns a node whose \<open>stringify()\<close> is \<open>left.stringify()\<close>, a space, the
  token, a space and \<open>right.stringify()\<close>, in the heap of the call and in any later one.
  In particular \<open>combine(element('div').id('main'), '>', element('span')).stringify()\<close>
  is \<open>div#main > span\<close>.
\<close>

theorem combine_stringify:
  "(\<forall>left token right h.
      snd (combine left token right h) = h
      \<and> stringify_at (snd (combine left token right h)) (fst (combine left token right h))
          = stringify_at h left @ '' '' @ token @ '' '' @ stringify_at h right)
   \<and> (\<forall>left token right h h'.
      stringify_at h' (fst (combine left token right h))
          = stringify_at h' left @ '' '' @ token @ '' '' @ stringify_at h' right)
   \<and> fst (combine_example empty_heap) = Inr ''div#main > span''"
proof (intro conjI allI)
  show "fst (combine_example empty_heap) = Inr ''div#main > span''"
    by (simp add: combine_example_def seq_def static_method_def instance_method_def
        new_cssSelectorBuilder_def empty_heap_def combine_def setter_defs stringify_def)
qed (simp_all add: combine_def)

text \<open>
  C6. A setter call that throws leaves the builder exactly as it was before the call: for
  the method of \<open>methodsMap\<close> on its receiver, for a chain of calls (the builder is as the
  accepted calls before the failing one left it), and for the instance method on the heap.
\<close>

theorem failed_setter_keeps_state:
  "(\<forall>k val this e. fst (methodsMap k val this) = Inl e \<longrightarrow>
      snd (methodsMap k val this) = this)
   \<and> (\<forall>cs this e. fst (chain cs this) = Inl e \<longrightarrow>
      (\<exists>pre. length pre < length cs \<and> pre = take (length pre) cs
         \<and> fst (chain pre this) = Inr () \<and> snd (chain cs this) = snd (chain pre this)))
   \<and> (\<forall>k this val h e. fst (instance_method k this val h) = Inl e \<longrightarrow>
      snd (instance_method k this val h) = h)"
proof (intro conjI allI impI)
  fix cs this e
  assume "fst (chain cs this) = Inl e"
  then show "\<exists>pre. length pre < length cs \<and> pre = take (length pre) cs
         \<and> fst (chain pre this) = Inr () \<and> snd (chain cs this) = snd (chain pre this)"
  proof (induction cs arbitrary: this)
    case Nil
    then show ?case by simp
  next
    case (Cons c cs)
    obtain k val where c: "c = (k, val)" by (cases c)
    obtain r b where m: "methodsMap k val this = (r, b)" by (cases "methodsMap k val this")
    show ?case
    proof (cases r)
      case (Inl e')
      with m have "snd (methodsMap k val this) = this"
        by (intro methodsMap_throw_keeps[of k val this e']) simp
      with m Inl c have "snd (chain (c # cs) this) = this" by simp
      then show ?thesis by (intro exI[of _ "[]"]) simp
    next
      case (Inr u)
      with Cons.prems c m have "fst (chain cs b) = Inl e" by simp
      then obtain dn where dn: "length dn < length cs" "dn = take (length dn) cs"
        "fst (chain dn b) = Inr ()" "snd (chain cs b) = snd (chain dn b)"
        using Cons.IH by blast
      with c m Inr show ?thesis
        by (intro exI[of _ "c # dn"]) simp
    qed
  qed
qed (auto intro: methodsMap_throw_keeps instance_method_throw_keeps)

theorem failed_setter_keeps_state_witness:
  "fst (methodsMap K_id ''a'' (snd (chain [(K_id, ''a'')] new_builder))) = Inl myError
   \<and> snd (methodsMap K_id ''a'' (snd (chain [(K_id, ''a'')] new_builder)))
       = snd (chain [(K_id, ''a'')] new_builder)"
proof -
  have a: "fst (methodsMap K_id ''a'' (snd (chain [(K_id, ''a'')] new_builder))) = Inl myError"
    by (simp add: setter_defs)
  with failed_setter_keeps_state show ?thesis by blast
qed

text \<open>
  C7. The record returned by \<open>Rectangle(width, height)\<close> has those two fields, and
  \<open>getArea()\<close> returns the product of the fields the record has when it is called: of
  \<open>width\<close> and \<open>height\<close> at first, of the new values after either field or both have
  been assigned. It holds for all numbers, so for all \<open>width, height \<ge> 0\<close>.
\<close>

theorem rectangle_area:
  "width (Rectangle w h) = w \<and> height (Rectangle w h) = h
   \<and> getArea (Rectangle w h) = w * h
   \<and> getArea ((Rectangle w h)\<lparr>width := w'\<rparr>) = w' * h
   \<and> getArea ((Rectangle w h)\<lparr>height := h'\<rparr>) = w * h'
   \<and> getArea ((Rectangle w h)\<lparr>width := w', height := h'\<rparr>) = w' * h'"
  by (simp add: Rectangle_def getArea_def)

text \<open>
  C10. For every chain of setter calls on a new builder none of which throws,
  \<open>stringify()\<close> is the fragments of the calls, stably sorted by the rank of their
  category (element, id, class, attribute, pseudo-class, pseudo-element): grouped by
  category in that order, the calls of one category in the order they were made. Two
  accepted chains with the same calls in each category give the same text, however the
  categories were interleaved. In particular \<open>pseudoElement('after').attr('x')\<close> is
  accepted, and renders \<open>[x]\<close> before \<open>::after\<close>.
\<close>

theorem stringify_orders_by_category:
  "(\<forall>cs. fst (chain cs new_builder) = Inr () \<longrightarrow>
      stringify (snd (chain cs new_builder)) = concat (map spec_fragment (sort_key spec_rank cs)))
   \<and> (\<forall>cs cs'. fst (chain cs new_builder) = Inr () \<and> fst (chain cs' new_builder) = Inr ()
        \<and> (\<forall>k. calls_of k cs = calls_of k cs') \<longrightarrow>
      stringify (snd (chain cs new_builder)) = stringify (snd (chain cs' new_builder)))
   \<and> fst (chain [(K_pseudoElement, ''after''), (K_attr, ''x'')] new_builder) = Inr ()
   \<and> stringify (snd (chain [(K_pseudoElement, ''after''), (K_attr, ''x'')] new_builder))
       = ''[x]::after''"
proof (intro conjI allI impI)
  fix cs
  assume "fst (chain cs new_builder) = Inr ()"
  then have "records (snd (chain cs new_builder)) cs" by (rule accepted_records)
  then show "stringify (snd (chain cs new_builder))
      = concat (map spec_fragment (sort_key spec_rank cs))"
    by (simp only: records_stringify sort_key_rank_groups)
next
  fix cs cs'
  assume a: "fst (chain cs new_builder) = Inr () \<and> fst (chain cs' new_builder) = Inr ()
        \<and> (\<forall>k. calls_of k cs = calls_of k cs')"
  then have "records (snd (chain cs new_builder)) cs"
    and "records (snd (chain cs' new_builder)) cs'"
    by (auto intro: accepted_records)
  with a show "stringify (snd (chain cs new_builder)) = stringify (snd (chain cs' new_builder))"
    by (simp add: records_stringify)
next
  show "fst (chain [(K_pseudoElement, ''after''), (K_attr, ''x'')] new_builder) = Inr ()"
    by (simp add: setter_defs)
next
  show "stringify (snd (chain [(K_pseudoElement, ''after''), (K_attr, ''x'')] new_builder))
       = ''[x]::after''"
    by (simp add: setter_defs stringify_def)
qed

theorem stringify_orders_by_category_witness:
  "fst (chain [(K_element, ''a''), (K_pseudoElement, ''after''), (K_attr, ''x''), (K_attr, ''y'')]
      new_builder) = Inr ()
   \<and> stringify (snd (chain [(K_element, ''a''), (K_pseudoElement, ''after''), (K_attr, ''x''),
        (K_attr, ''y'')] new_builder)) = ''a[x][y]::after''"
proof -
  have a: "fst (chain [(K_element, ''a''), (K_pseudoElement, ''after''), (K_attr, ''x''),
      (K_attr, ''y'')] new_builder) = Inr ()"
    by (simp add: setter_defs)
  have b: "concat (map spec_fragment (sort_key spec_rank
      [(K_element, ''a''), (K_pseudoElement, ''after''), (K_attr, ''x''), (K_attr, ''y'')]))
    = ''a[x][y]::after''"
    by simp
  from stringify_orders_by_category a
  have "stringify (snd (chain [(K_element, ''a''), (K_pseudoElement, ''after''), (K_attr, ''x''),
      (K_attr, ''y'')] new_builder))
    = concat (map spec_fragment (sort_key spec_rank
      [(K_element, ''a''), (K_pseudoElement, ''after''), (K_attr, ''x''), (K_attr, ''y'')]))"
    by blast
  with a b show ?thesis by (simp only:)
qed

end
